theory Spec2Isabelle
  imports Complex_Main
begin

section \<open>Data model\<close>

text \<open>
  The payload of a block is any value that \<^verbatim>\<open>json.dumps\<close> accepts: the JSON-shaped
  fragment of Python values. Dictionaries are association lists with string keys.
\<close>

datatype pyval =
    PNone
  | PBool bool
  | PInt int
  | PFloat real
  | PStr string
  | PList "pyval list"
  | PDict "(string \<times> pyval) list"

text \<open>
  \<^verbatim>\<open>class Block\<close>: the five hashed attributes and the stored \<^verbatim>\<open>hash\<close>. Python's
  unbounded \<^verbatim>\<open>int\<close> is \<open>int\<close>; the \<^verbatim>\<open>float\<close> timestamp is carried as a \<open>real\<close>
  (no arithmetic is ever done on it by the chain).
\<close>

record block =
  index :: int
  timestamp :: real
  data :: pyval
  previous_hash :: string
  nonce :: int
  hash :: string

text \<open>\<^verbatim>\<open>class Blockchain\<close>: the list of blocks and the difficulty.\<close>

record blockchain =
  chain_blocks :: "block list"
  difficulty :: int

text \<open>The exceptions the code can raise.\<close>

datatype py_error = IndexError | ZeroDivisionError | OverflowError

text \<open>The dictionary returned by \<^verbatim>\<open>add_block\<close>.\<close>

record summary =
  s_index :: int
  s_hash :: string
  s_nonce :: int
  s_time_taken_sec :: real

section \<open>Library functions\<close>

text \<open>
  \<^verbatim>\<open>compute_hash\<close> hands the five attributes to two library calls:
  \<^verbatim>\<open>json.dumps({...}, sort_keys=True, separators=(',', ':'))\<close> and
  \<^verbatim>\<open>hashlib.sha256(...).hexdigest()\<close>. Neither is code of the repository. Their composition
  is a parameter of the model: a function of the five dictionary values, in the order
  index, timestamp, data, previous_hash, nonce. Every theorem below holds for every
  such function, SHA-256 of the canonical JSON text included.
\<close>

type_synonym digest_fn = "int \<Rightarrow> real \<Rightarrow> pyval \<Rightarrow> string \<Rightarrow> int \<Rightarrow> string"

text \<open>\<^verbatim>\<open>s.startswith(t)\<close>\<close>

definition startswith :: "string \<Rightarrow> string \<Rightarrow> bool" where
  "startswith s t = (take (length t) s = t)"

text \<open>\<^verbatim>\<open>'0' * n\<close>: the empty string when \<open>n \<le> 0\<close>.\<close>

definition zeros :: "int \<Rightarrow> string" where
  "zeros n = replicate (nat n) (CHR ''0'')"

text \<open>\<^verbatim>\<open>str(n)\<close> for an integer, as the f-strings of \<^verbatim>\<open>is_chain_valid\<close> format it.\<close>

definition digit_char :: "nat \<Rightarrow> char" where
  "digit_char d = ''0123456789'' ! d"

function str_nat :: "nat \<Rightarrow> string" where
  "str_nat n = (if n < 10 then [digit_char n] else str_nat (n div 10) @ [digit_char (n mod 10)])"
  by pat_completeness auto
termination
  by (relation "measure id") auto

definition str_int :: "int \<Rightarrow> string" where
  "str_int i = (if i < 0 then CHR ''-'' # str_nat (nat (- i)) else str_nat (nat i))"

section \<open>Block\<close>

definition compute_hash :: "digest_fn \<Rightarrow> block \<Rightarrow> string" where
  "compute_hash hf b = hf (index b) (timestamp b) (data b) (previous_hash b) (nonce b)"

text \<open>\<^verbatim>\<open>Block.__init__\<close>: stores the attributes, then \<^verbatim>\<open>self.hash = self.compute_hash()\<close>.\<close>

definition Block_init :: "digest_fn \<Rightarrow> int \<Rightarrow> real \<Rightarrow> pyval \<Rightarrow> string \<Rightarrow> int \<Rightarrow> block" where
  "Block_init hf i t d p n =
     \<lparr>index = i, timestamp = t, data = d, previous_hash = p, nonce = n, hash = hf i t d p n\<rparr>"

section \<open>Blockchain\<close>

text \<open>
  The \<^verbatim>\<open>while True\<close> loop of \<^verbatim>\<open>proof_of_work\<close>. It mutates the block (\<^verbatim>\<open>hash\<close> and
  \<^verbatim>\<open>nonce\<close>) and leaves through the \<^verbatim>\<open>return\<close> only; a search that never finds a digest
  with the target prefix is the value \<open>None\<close>.
\<close>

partial_function (option) mine_loop :: "digest_fn \<Rightarrow> string \<Rightarrow> block \<Rightarrow> block option" where
  "mine_loop hf target b =
     (if startswith (compute_hash hf b) target
      then Some (b\<lparr>hash := compute_hash hf b\<rparr>)
      else mine_loop hf target (b\<lparr>hash := compute_hash hf b, nonce := nonce b + 1\<rparr>))"

text \<open>
  \<^verbatim>\<open>proof_of_work\<close>: \<open>start\<close> and \<open>fin\<close> are the two readings of \<^verbatim>\<open>time.time()\<close>. The
  result is the block as the loop left it and the returned tuple
  \<^verbatim>\<open>(block.hash, block.nonce, end - start)\<close>.
\<close>

definition proof_of_work ::
  "digest_fn \<Rightarrow> blockchain \<Rightarrow> block \<Rightarrow> real \<Rightarrow> real \<Rightarrow> (block \<times> string \<times> int \<times> real) option" where
  "proof_of_work hf self b start fin =
     (case mine_loop hf (zeros (difficulty self)) b of
        None \<Rightarrow> None
      | Some b' \<Rightarrow> Some (b', hash b', nonce b', fin - start))"

text \<open>\<^verbatim>\<open>create_genesis_block\<close>; \<open>now\<close> is the reading of the clock for the timestamp.\<close>

definition create_genesis_block ::
  "digest_fn \<Rightarrow> blockchain \<Rightarrow> real \<Rightarrow> real \<Rightarrow> real \<Rightarrow> blockchain option" where
  "create_genesis_block hf self now start fin =
     (case proof_of_work hf self (Block_init hf 0 now (PStr ''Genesis Block'') ''0'' 0) start fin of
        None \<Rightarrow> None
      | Some (genesis, h, _, _) \<Rightarrow>
          Some (self\<lparr>chain_blocks := chain_blocks self @ [genesis\<lparr>hash := h\<rparr>]\<rparr>))"

text \<open>\<^verbatim>\<open>Blockchain.__init__\<close>\<close>

definition Blockchain_init :: "digest_fn \<Rightarrow> int \<Rightarrow> real \<Rightarrow> real \<Rightarrow> real \<Rightarrow> blockchain option" where
  "Blockchain_init hf d now start fin =
     create_genesis_block hf \<lparr>chain_blocks = [], difficulty = d\<rparr> now start fin"

text \<open>\<^verbatim>\<open>last_block\<close>: \<^verbatim>\<open>self.chain[-1]\<close> raises on an empty list.\<close>

definition last_block :: "blockchain \<Rightarrow> py_error + block" where
  "last_block self = (if chain_blocks self = [] then Inl IndexError else Inr (last (chain_blocks self)))"

text \<open>
  \<^verbatim>\<open>add_block\<close>: \<open>None\<close> when the mining loop never returns, \<open>Some (Inl e)\<close> when \<open>e\<close> is
  raised, otherwise the chain after the call and the returned dictionary.
\<close>

definition add_block ::
  "digest_fn \<Rightarrow> blockchain \<Rightarrow> pyval \<Rightarrow> real \<Rightarrow> real \<Rightarrow> real \<Rightarrow> (py_error + blockchain \<times> summary) option" where
  "add_block hf self d now start fin =
     (case last_block self of
        Inl e \<Rightarrow> Some (Inl e)
      | Inr lb \<Rightarrow>
          (case proof_of_work hf self (Block_init hf (index lb + 1) now d (hash lb) 0) start fin of
             None \<Rightarrow> None
           | Some (mined, mined_hash, nonce_used, time_taken) \<Rightarrow>
               (let new_block = mined\<lparr>hash := mined_hash\<rparr>
                in Some (Inr (self\<lparr>chain_blocks := chain_blocks self @ [new_block]\<rparr>,
                              \<lparr>s_index = index new_block, s_hash = hash new_block,
                               s_nonce = nonce new_block, s_time_taken_sec = time_taken\<rparr>)))))"

text \<open>
  \<^verbatim>\<open>is_chain_valid\<close>: the \<^verbatim>\<open>for i in range(1, len(self.chain))\<close> loop, from index \<open>i\<close> on.
\<close>

function valid_loop :: "digest_fn \<Rightarrow> string \<Rightarrow> block list \<Rightarrow> nat \<Rightarrow> bool \<times> string" where
  "valid_loop hf target bs i =
     (if i < length bs then
        (if previous_hash (bs ! i) \<noteq> hash (bs ! (i - 1))
         then (False, ''Block '' @ str_int (index (bs ! i)) @ '' previous_hash mismatch.'')
         else if compute_hash hf (bs ! i) \<noteq> hash (bs ! i)
         then (False, ''Block '' @ str_int (index (bs ! i)) @ '' hash mismatch.'')
         else if \<not> startswith (hash (bs ! i)) target
         then (False, ''Block '' @ str_int (index (bs ! i)) @ '' does not meet difficulty.'')
         else valid_loop hf target bs (Suc i))
      else (True, ''Chain is valid.''))"
  by pat_completeness auto
termination
  by (relation "measure (\<lambda>(hf, target, bs, i). length bs - i)") auto

definition is_chain_valid :: "digest_fn \<Rightarrow> blockchain \<Rightarrow> bool \<times> string" where
  "is_chain_valid hf self = valid_loop hf (zeros (difficulty self)) (chain_blocks self) 1"

text \<open>
  \<^verbatim>\<open>tamper_with_block\<close>: the exception raised, if any, and the chain after the call.
\<close>

definition tamper_with_block :: "blockchain \<Rightarrow> int \<Rightarrow> pyval \<Rightarrow> py_error option \<times> blockchain" where
  "tamper_with_block self i new_data =
     (if i \<le> 0 \<or> i \<ge> int (length (chain_blocks self))
      then (Some IndexError, self)
      else (None, self\<lparr>chain_blocks :=
              (chain_blocks self)[nat i := (chain_blocks self ! nat i)\<lparr>data := new_data\<rparr>]\<rparr>))"








section \<open>Notions used to state the properties\<close>

text \<open>
  A nonce \<open>n\<close> meets the target for a block when the digest of the block with that nonce
  starts with the target string.
\<close>

definition meets :: "digest_fn \<Rightarrow> string \<Rightarrow> block \<Rightarrow> int \<Rightarrow> bool" where
  "meets hf target b n = startswith (compute_hash hf (b\<lparr>nonce := n\<rparr>)) target"

text \<open>
  The validation contract in the words of the specification: three checks per block,
  taken in the order (a) link to the predecessor, (b) recomputed digest, (c) difficulty
  prefix; the blocks are visited from position 1 on and the first failing one is reported.
\<close>

datatype check = PreviousHash | HashMismatch | Difficulty

definition failure_message :: "block \<Rightarrow> check \<Rightarrow> string" where
  "failure_message current k =
     ''Block '' @ str_int (index current) @
       (case k of
          PreviousHash \<Rightarrow> '' previous_hash mismatch.''
        | HashMismatch \<Rightarrow> '' hash mismatch.''
        | Difficulty \<Rightarrow> '' does not meet difficulty.'')"

definition failed_check :: "digest_fn \<Rightarrow> string \<Rightarrow> block list \<Rightarrow> nat \<Rightarrow> check option" where
  "failed_check hf target bs i =
     (if previous_hash (bs ! i) \<noteq> hash (bs ! (i - 1)) then Some PreviousHash
      else if compute_hash hf (bs ! i) \<noteq> hash (bs ! i) then Some HashMismatch
      else if \<not> startswith (hash (bs ! i)) target then Some Difficulty
      else None)"

definition validate_spec :: "digest_fn \<Rightarrow> blockchain \<Rightarrow> bool \<times> string" where
  "validate_spec hf self =
     (let bs = chain_blocks self; target = zeros (difficulty self)
      in case find (\<lambda>i. failed_check hf target bs i \<noteq> None) [1..<length bs] of
           None \<Rightarrow> (True, ''Chain is valid.'')
         | Some i \<Rightarrow> (False, failure_message (bs ! i) (the (failed_check hf target bs i))))"

text \<open>
  A run of the interface without \<^verbatim>\<open>tamper_with_block\<close>, as the demo at the end of the source
  starts: the constructor, then calls of \<^verbatim>\<open>add_block\<close>. \<^verbatim>\<open>Block.__init__\<close> keeps the
  payload object it is given (\<^verbatim>\<open>self.data = data\<close>, no copy) and \<^verbatim>\<open>compute_hash\<close> serialises
  that object anew at every call, so between two calls the caller can change what a block
  holds by mutating a list or dictionary it has passed. The world of a run therefore has
  the caller's payload objects in a store, by address, and records for every block the
  address its \<^verbatim>\<open>data\<close> attribute refers to (\<open>None\<close> for the genesis block, whose payload is a
  string literal). The \<open>data\<close> field of a block in \<open>w_chain\<close> is the content its object has
  at that moment, which is what \<^verbatim>\<open>compute_hash\<close> reads.
\<close>

type_synonym addr = nat

record world =
  w_chain :: blockchain
  w_store :: "addr \<Rightarrow> pyval"
  w_held :: "addr option list"

text \<open>
  The steps of a run: \<^verbatim>\<open>add_block(obj)\<close> with the object at an address and the three clock
  readings of the call, and an in-place mutation by the caller of the object at an address
  to a new content.
\<close>

datatype step = Add_block addr real real real | Mutate addr pyval

text \<open>Only lists and dictionaries can be mutated in place, and they stay what they are.\<close>

fun same_kind :: "pyval \<Rightarrow> pyval \<Rightarrow> bool" where
  "same_kind (PList _) (PList _) = True"
| "same_kind (PDict _) (PDict _) = True"
| "same_kind _ _ = False"

text \<open>The blocks as they read after the object at \<open>a\<close> has got the content \<open>v\<close>.\<close>

definition refresh :: "addr \<Rightarrow> pyval \<Rightarrow> addr option list \<Rightarrow> block list \<Rightarrow> block list" where
  "refresh a v held bs =
     map (\<lambda>k. if k < length held \<and> held ! k = Some a then (bs ! k)\<lparr>data := v\<rparr> else bs ! k)
       [0..<length bs]"

definition mutate :: "world \<Rightarrow> addr \<Rightarrow> pyval \<Rightarrow> world option" where
  "mutate w a v =
     (if same_kind (w_store w a) v
      then Some (w\<lparr>w_store := (w_store w)(a := v),
                    w_chain := (w_chain w)\<lparr>chain_blocks :=
                       refresh a v (w_held w) (chain_blocks (w_chain w))\<rparr>\<rparr>)
      else None)"

text \<open>The run has no resulting world when a call does not return or raises.\<close>

fun run_steps :: "digest_fn \<Rightarrow> world \<Rightarrow> step list \<Rightarrow> world option" where
  "run_steps hf w [] = Some w"
| "run_steps hf w (Add_block a now start fin # rest) =
     (case add_block hf (w_chain w) (w_store w a) now start fin of
        Some (Inr (self', _)) \<Rightarrow>
          run_steps hf (w\<lparr>w_chain := self', w_held := w_held w @ [Some a]\<rparr>) rest
      | _ \<Rightarrow> None)"
| "run_steps hf w (Mutate a v # rest) =
     (case mutate w a v of None \<Rightarrow> None | Some w' \<Rightarrow> run_steps hf w' rest)"

definition run ::
  "digest_fn \<Rightarrow> int \<Rightarrow> real \<times> real \<times> real \<Rightarrow> (addr \<Rightarrow> pyval) \<Rightarrow> step list \<Rightarrow> world option" where
  "run hf d clk store sts =
     (case clk of (now, start, fin) \<Rightarrow>
        (case Blockchain_init hf d now start fin of
           None \<Rightarrow> None
         | Some self \<Rightarrow> run_steps hf \<lparr>w_chain = self, w_store = store, w_held = [None]\<rparr> sts))"


text \<open>
  In every world of a run there is one held address for each block, and a block reads the
  content that the object it holds has in the store.
\<close>

definition consistent :: "world \<Rightarrow> bool" where
  "consistent w \<longleftrightarrow>
     length (w_held w) = length (chain_blocks (w_chain w))
     \<and> (\<forall>k a. k < length (w_held w) \<and> w_held w ! k = Some a
           \<longrightarrow> data (chain_blocks (w_chain w) ! k) = w_store w a)"

text \<open>
  A small digest function for evaluating the definitions on concrete chains: the result
  starts with \<open>00\<close> exactly when nonce plus twice the index is 3 modulo 5, and it depends
  on the index, the payload, the length of the previous digest and the nonce.
\<close>

fun payload_text :: "pyval \<Rightarrow> string" where
  "payload_text (PStr s) = s"
| "payload_text (PList xs) = concat (map payload_text xs)"
| "payload_text _ = []"

definition demo_digest :: digest_fn where
  "demo_digest i t d p n =
     (if (n + 2 * i) mod 5 = 3 then ''00'' else ''e'') @ str_int (i + n + int (length p)) @ payload_text d"

text \<open>
  The chain that the constructor with difficulty 2 and two calls of \<^verbatim>\<open>add_block\<close> with
  string payloads build under \<open>demo_digest\<close> (see \<open>run_demo\<close> below), and the store of that
  run.
\<close>

definition demo_genesis :: block where
  "demo_genesis = \<lparr>index = 0, timestamp = 1000, data = PStr ''Genesis Block'',
     previous_hash = ''0'', nonce = 3, hash = ''004Genesis Block''\<rparr>"

definition demo_block1 :: block where
  "demo_block1 = \<lparr>index = 1, timestamp = 1010, data = PStr ''First transaction'',
     previous_hash = ''004Genesis Block'', nonce = 1, hash = ''0018First transaction''\<rparr>"

definition demo_block2 :: block where
  "demo_block2 = \<lparr>index = 2, timestamp = 1020, data = PStr ''Second transaction'',
     previous_hash = ''0018First transaction'', nonce = 4, hash = ''0027Second transaction''\<rparr>"

definition demo_chain :: blockchain where
  "demo_chain = \<lparr>chain_blocks = [demo_genesis, demo_block1, demo_block2], difficulty = 2\<rparr>"

definition demo_store :: "addr \<Rightarrow> pyval" where
  "demo_store =
     (\<lambda>a. PNone)(0 := PStr ''First transaction'', 1 := PStr ''Second transaction'', 2 := PList [])"


section \<open>Auxiliary facts\<close>

declare valid_loop.simps [simp del]
declare str_nat.simps [simp del]

subsection \<open>Digest and mining\<close>

lemma compute_hash_hash_update [simp]: "compute_hash hf (b\<lparr>hash := h\<rparr>) = compute_hash hf b"
  by (simp add: compute_hash_def)

lemma compute_hash_hash_nonce_update [simp]:
  "compute_hash hf (b\<lparr>hash := h, nonce := n\<rparr>) = compute_hash hf (b\<lparr>nonce := n\<rparr>)"
  by (simp add: compute_hash_def)

lemma meets_hash_update [simp]: "meets hf target (b\<lparr>hash := h\<rparr>) n = meets hf target b n"
  by (simp add: meets_def compute_hash_def)

lemma meets_nonce_update [simp]: "meets hf target (b\<lparr>nonce := k\<rparr>) n = meets hf target b n"
  by (simp add: meets_def)

lemma meets_self: "meets hf target b (nonce b) = startswith (compute_hash hf b) target"
  by (simp add: meets_def)

text \<open>If \<open>n\<close> is the first nonce from the starting one on that meets the target, the loop stops there.\<close>

lemma mine_loop_found:
  assumes "nonce b \<le> n" and "meets hf target b n"
    and "\<forall>m. nonce b \<le> m \<and> m < n \<longrightarrow> \<not> meets hf target b m"
  shows "mine_loop hf target b = Some (b\<lparr>nonce := n, hash := compute_hash hf (b\<lparr>nonce := n\<rparr>)\<rparr>)"
  using assms
proof (induction "nat (n - nonce b)" arbitrary: b)
  case 0
  then have "n = nonce b" by simp
  with 0 show ?case
    by (subst mine_loop.simps) (simp add: meets_self [symmetric])
next
  case (Suc k)
  let ?b' = "b\<lparr>hash := compute_hash hf b, nonce := nonce b + 1\<rparr>"
  from Suc.hyps(2) have lt: "nonce b < n" by simp
  with Suc.prems(3) have "\<not> meets hf target b (nonce b)" by simp
  then have nb: "\<not> startswith (compute_hash hf b) target" by (simp add: meets_self)
  have "mine_loop hf target ?b' = Some (?b'\<lparr>nonce := n, hash := compute_hash hf (?b'\<lparr>nonce := n\<rparr>)\<rparr>)"
  proof (rule Suc.hyps(1))
    show "k = nat (n - nonce ?b')" using Suc.hyps(2) by simp
    show "nonce ?b' \<le> n" using lt by simp
    show "meets hf target ?b' n" using Suc.prems(2) by simp
    show "\<forall>m. nonce ?b' \<le> m \<and> m < n \<longrightarrow> \<not> meets hf target ?b' m"
      using Suc.prems(3) by simp
  qed
  then show ?case
    by (subst mine_loop.simps) (simp add: nb)
qed

text \<open>Whatever the loop returns is the block at the first nonce that meets the target.\<close>

lemma mine_loop_Some:
  assumes "mine_loop hf target b = Some b'"
  shows "nonce b \<le> nonce b' \<and> meets hf target b (nonce b')
    \<and> (\<forall>m. nonce b \<le> m \<and> m < nonce b' \<longrightarrow> \<not> meets hf target b m)
    \<and> b' = b\<lparr>nonce := nonce b', hash := compute_hash hf (b\<lparr>nonce := nonce b'\<rparr>)\<rparr>"
proof (rule mine_loop.raw_induct [where P = "\<lambda>hf target b b'. nonce b \<le> nonce b' \<and> meets hf target b (nonce b')
    \<and> (\<forall>m. nonce b \<le> m \<and> m < nonce b' \<longrightarrow> \<not> meets hf target b m)
    \<and> b' = b\<lparr>nonce := nonce b', hash := compute_hash hf (b\<lparr>nonce := nonce b'\<rparr>)\<rparr>", OF _ assms])
  fix mine :: "digest_fn \<Rightarrow> string \<Rightarrow> block \<Rightarrow> block option" and hf target b b'
  assume ih: "\<And>hf target b b'. mine hf target b = Some b' \<Longrightarrow>
      nonce b \<le> nonce b' \<and> meets hf target b (nonce b')
    \<and> (\<forall>m. nonce b \<le> m \<and> m < nonce b' \<longrightarrow> \<not> meets hf target b m)
    \<and> b' = b\<lparr>nonce := nonce b', hash := compute_hash hf (b\<lparr>nonce := nonce b'\<rparr>)\<rparr>"
  assume body: "(if startswith (compute_hash hf b) target
      then Some (b\<lparr>hash := compute_hash hf b\<rparr>)
      else mine hf target (b\<lparr>hash := compute_hash hf b, nonce := nonce b + 1\<rparr>)) = Some b'"
  show "nonce b \<le> nonce b' \<and> meets hf target b (nonce b')
    \<and> (\<forall>m. nonce b \<le> m \<and> m < nonce b' \<longrightarrow> \<not> meets hf target b m)
    \<and> b' = b\<lparr>nonce := nonce b', hash := compute_hash hf (b\<lparr>nonce := nonce b'\<rparr>)\<rparr>"
  proof (cases "startswith (compute_hash hf b) target")
    case True
    with body have "b' = b\<lparr>hash := compute_hash hf b\<rparr>" by simp
    with True show ?thesis by (auto simp: meets_self)
  next
    case False
    let ?b1 = "b\<lparr>hash := compute_hash hf b, nonce := nonce b + 1\<rparr>"
    from False body have "mine hf target ?b1 = Some b'" by simp
    from ih [OF this] have ih': "nonce b + 1 \<le> nonce b'" "meets hf target b (nonce b')"
      "\<forall>m. nonce b + 1 \<le> m \<and> m < nonce b' \<longrightarrow> \<not> meets hf target b m"
      "b' = b\<lparr>nonce := nonce b', hash := compute_hash hf (b\<lparr>nonce := nonce b'\<rparr>)\<rparr>"
      by simp_all
    have "\<not> meets hf target b m" if "nonce b \<le> m" "m < nonce b'" for m
    proof (cases "m = nonce b")
      case True
      then show ?thesis using False by (simp add: meets_self)
    next
      case False
      with that ih'(3) show ?thesis by simp
    qed
    with ih' show ?thesis by auto
  qed
qed

text \<open>The loop runs forever exactly when no nonce from the starting one on meets the target.\<close>

lemma mine_loop_None_iff:
  "mine_loop hf target b = None \<longleftrightarrow> (\<forall>m. nonce b \<le> m \<longrightarrow> \<not> meets hf target b m)"
proof
  assume n: "mine_loop hf target b = None"
  show "\<forall>m. nonce b \<le> m \<longrightarrow> \<not> meets hf target b m"
  proof (intro allI impI notI)
    fix m assume m: "nonce b \<le> m" "meets hf target b m"
    let ?P = "\<lambda>k. meets hf target b (nonce b + int k)"
    have ex: "?P (nat (m - nonce b))" using m by simp
    define k where "k = (LEAST k. ?P k)"
    have Pk: "?P k" unfolding k_def using ex by (rule LeastI)
    have least: "\<not> ?P j" if "j < k" for j
      using that not_less_Least unfolding k_def by blast
    have "\<not> meets hf target b m'" if "nonce b \<le> m'" "m' < nonce b + int k" for m'
    proof -
      from that have "nat (m' - nonce b) < k" by linarith
      from least [OF this] that(1) show ?thesis by simp
    qed
    then have "\<forall>m'. nonce b \<le> m' \<and> m' < nonce b + int k \<longrightarrow> \<not> meets hf target b m'"
      by blast
    from mine_loop_found [OF _ Pk this] n show False by simp
  qed
next
  assume a: "\<forall>m. nonce b \<le> m \<longrightarrow> \<not> meets hf target b m"
  show "mine_loop hf target b = None"
  proof (cases "mine_loop hf target b")
    case None
    then show ?thesis .
  next
    case (Some b')
    from mine_loop_Some [OF this] a show ?thesis by blast
  qed
qed

subsection \<open>The validation loop\<close>

lemma valid_loop_find:
  "valid_loop hf target bs i =
     (case find (\<lambda>j. failed_check hf target bs j \<noteq> None) [i..<length bs] of
        None \<Rightarrow> (True, ''Chain is valid.'')
      | Some j \<Rightarrow> (False, failure_message (bs ! j) (the (failed_check hf target bs j))))"
proof (induction hf target bs i rule: valid_loop.induct)
  case (1 hf target bs i)
  show ?case
  proof (cases "i < length bs")
    case False
    then show ?thesis by (subst valid_loop.simps) simp
  next
    case True
    then have upt: "[i..<length bs] = i # [Suc i..<length bs]"
      by (simp add: upt_conv_Cons)
    show ?thesis
    proof (cases "failed_check hf target bs i")
      case None
      then have ok: "\<not> previous_hash (bs ! i) \<noteq> hash (bs ! (i - 1))"
        "\<not> compute_hash hf (bs ! i) \<noteq> hash (bs ! i)"
        "\<not> \<not> startswith (hash (bs ! i)) target"
        by (simp_all add: failed_check_def split: if_splits)
      have "valid_loop hf target bs i = valid_loop hf target bs (Suc i)"
        using True ok by (subst valid_loop.simps) simp
      also note "1.IH" [OF True ok]
      finally show ?thesis using None by (simp add: upt)
    next
      case (Some k)
      then show ?thesis using True
        by (subst valid_loop.simps)
           (auto simp: upt failed_check_def failure_message_def split: if_splits)
    qed
  qed
qed

lemma is_chain_valid_spec: "is_chain_valid hf self = validate_spec hf self"
  by (simp add: is_chain_valid_def validate_spec_def valid_loop_find Let_def)

lemma valid_loop_ok_iff:
  "valid_loop hf target bs i = (True, ''Chain is valid.'') \<longleftrightarrow>
     (\<forall>j. i \<le> j \<and> j < length bs \<longrightarrow> failed_check hf target bs j = None)"
proof (cases "find (\<lambda>j. failed_check hf target bs j \<noteq> None) [i..<length bs]")
  case None
  then have "\<forall>j. i \<le> j \<and> j < length bs \<longrightarrow> failed_check hf target bs j = None"
    by (auto simp: find_None_iff)
  with None show ?thesis by (simp add: valid_loop_find)
next
  case (Some j)
  then have "j \<in> set [i..<length bs]" "failed_check hf target bs j \<noteq> None"
    by (auto simp: find_Some_iff)
  then have "\<not> (\<forall>j. i \<le> j \<and> j < length bs \<longrightarrow> failed_check hf target bs j = None)"
    by auto
  with Some show ?thesis by (simp add: valid_loop_find)
qed

lemma valid_loop_first_failure:
  assumes "i \<le> j" "j < length bs" "failed_check hf target bs j = Some k"
    and "\<forall>m. i \<le> m \<and> m < j \<longrightarrow> failed_check hf target bs m = None"
  shows "valid_loop hf target bs i = (False, failure_message (bs ! j) k)"
proof -
  have "find (\<lambda>j. failed_check hf target bs j \<noteq> None) [i..<length bs] = Some j"
    unfolding find_Some_iff
  proof (intro exI [of _ "j - i"] conjI)
    show "j - i < length [i..<length bs]" using assms by simp
    show "failed_check hf target bs ([i..<length bs] ! (j - i)) \<noteq> None" using assms by simp
    show "j = [i..<length bs] ! (j - i)" using assms by simp
    show "\<forall>m<j - i. \<not> failed_check hf target bs ([i..<length bs] ! m) \<noteq> None"
      using assms by auto
  qed
  then show ?thesis using assms by (simp add: valid_loop_find)
qed

subsection \<open>Evaluation on the demo chain\<close>

lemma zeros_2: "zeros 2 = ''00''"
  by (simp add: zeros_def numeral_2_eq_2)

lemmas demo_defs = demo_chain_def demo_genesis_def demo_block1_def demo_block2_def

lemmas digest_eval = compute_hash_def demo_digest_def startswith_def zeros_2
  str_int_def str_nat.simps digit_char_def

lemma demo_meets: "meets demo_digest ''00'' b n \<longleftrightarrow> (n + 2 * index b) mod 5 = 3"
  by (simp add: meets_def compute_hash_def demo_digest_def startswith_def)

lemma init_demo:
  "Blockchain_init demo_digest 2 1000 1000 1001 = Some \<lparr>chain_blocks = [demo_genesis], difficulty = 2\<rparr>"
proof -
  have "mine_loop demo_digest ''00'' (Block_init demo_digest 0 1000 (PStr ''Genesis Block'') ''0'' 0)
      = Some demo_genesis"
    by (simp add: mine_loop.simps Block_init_def demo_genesis_def digest_eval)
  then show ?thesis
    by (simp add: Blockchain_init_def create_genesis_block_def proof_of_work_def zeros_2)
qed

lemma add1_demo:
  "add_block demo_digest \<lparr>chain_blocks = [demo_genesis], difficulty = 2\<rparr>
     (PStr ''First transaction'') 1010 1010 1012 =
   Some (Inr (\<lparr>chain_blocks = [demo_genesis, demo_block1], difficulty = 2\<rparr>,
     \<lparr>s_index = 1, s_hash = ''0018First transaction'', s_nonce = 1, s_time_taken_sec = 2\<rparr>))"
proof -
  have "mine_loop demo_digest ''00''
      (Block_init demo_digest 1 1010 (PStr ''First transaction'') ''004Genesis Block'' 0)
      = Some demo_block1"
    by (simp add: mine_loop.simps Block_init_def demo_block1_def digest_eval)
  then show ?thesis
    by (simp add: add_block_def last_block_def proof_of_work_def zeros_2 demo_genesis_def
        demo_block1_def)
qed

lemma add2_demo:
  "add_block demo_digest \<lparr>chain_blocks = [demo_genesis, demo_block1], difficulty = 2\<rparr>
     (PStr ''Second transaction'') 1020 1020 1025 =
   Some (Inr (demo_chain,
     \<lparr>s_index = 2, s_hash = ''0027Second transaction'', s_nonce = 4, s_time_taken_sec = 5\<rparr>))"
proof -
  have "mine_loop demo_digest ''00''
      (Block_init demo_digest 2 1020 (PStr ''Second transaction'') ''0018First transaction'' 0)
      = Some demo_block2"
    by (simp add: mine_loop.simps Block_init_def demo_block2_def digest_eval)
  then show ?thesis
    by (simp add: add_block_def last_block_def proof_of_work_def zeros_2 demo_defs)
qed

lemma valid_demo: "is_chain_valid demo_digest demo_chain = (True, ''Chain is valid.'')"
  by (simp add: is_chain_valid_def valid_loop.simps demo_defs digest_eval)

subsection \<open>Validation and the genesis block\<close>

lemma is_chain_valid_ok_iff:
  "is_chain_valid hf self = (True, ''Chain is valid.'') \<longleftrightarrow>
     (\<forall>j. 1 \<le> j \<and> j < length (chain_blocks self) \<longrightarrow>
        failed_check hf (zeros (difficulty self)) (chain_blocks self) j = None)"
  by (simp add: is_chain_valid_def valid_loop_ok_iff)

lemma find_SomeD: "find P xs = Some x \<Longrightarrow> x \<in> set xs \<and> P x"
  by (induction xs) (auto split: if_splits)

lemma failed_check_genesis:
  assumes "1 \<le> j" and "hash g' = hash g"
  shows "failed_check hf target (g' # rest) j = failed_check hf target (g # rest) j"
  using assms by (simp add: failed_check_def nth_Cons')

lemma valid_loop_genesis:
  assumes "hash g' = hash g"
  shows "valid_loop hf target (g' # rest) (Suc 0) = valid_loop hf target (g # rest) (Suc 0)"
proof -
  let ?P = "\<lambda>g j. failed_check hf target (g # rest) j \<noteq> None"
  have eq: "find (?P g') [Suc 0..<length (g' # rest)] = find (?P g) [Suc 0..<length (g # rest)]"
    by (rule find_cong) (auto simp: failed_check_genesis [OF _ assms])
  show ?thesis
  proof (cases "find (?P g) [Suc 0..<length (g # rest)]")
    case None
    with eq show ?thesis by (simp add: valid_loop_find)
  next
    case (Some j)
    then have "j \<in> set [Suc 0..<length (g # rest)]" by (rule find_SomeD [THEN conjunct1])
    then have "1 \<le> j" by auto
    then have "(g' # rest) ! j = (g # rest) ! j"
      "failed_check hf target (g' # rest) j = failed_check hf target (g # rest) j"
      by (simp_all add: nth_Cons' failed_check_genesis [OF _ assms])
    with eq Some show ?thesis by (simp add: valid_loop_find)
  qed
qed

lemma valid_loop_single: "valid_loop hf target [g] (Suc 0) = (True, ''Chain is valid.'')"
  by (simp add: valid_loop.simps)


subsection \<open>proof_of_work and add_block\<close>

lemma startswith_zeros_iff:
  "startswith s (zeros d) \<longleftrightarrow> nat d \<le> length s \<and> (\<forall>k < nat d. s ! k = CHR ''0'')"
proof -
  have "take (nat d) s = replicate (nat d) (CHR ''0'') \<longleftrightarrow>
      nat d \<le> length s \<and> (\<forall>k < nat d. s ! k = CHR ''0'')"
    by (auto simp: list_eq_iff_nth_eq min_def)
  then show ?thesis by (simp add: startswith_def zeros_def)
qed

lemma mined_block:
  assumes "b' = b\<lparr>nonce := n, hash := compute_hash hf (b\<lparr>nonce := n\<rparr>)\<rparr>"
  shows "hash b' = compute_hash hf b'" "nonce b' = n" "index b' = index b"
    "timestamp b' = timestamp b" "data b' = data b" "previous_hash b' = previous_hash b"
    "startswith (hash b') target = meets hf target b n"
  using assms by (simp_all add: compute_hash_def meets_def)

lemma proof_of_work_None_iff:
  "proof_of_work hf self b start fin = None \<longleftrightarrow>
     (\<forall>m. nonce b \<le> m \<longrightarrow> \<not> meets hf (zeros (difficulty self)) b m)"
  by (simp add: proof_of_work_def mine_loop_None_iff [symmetric] split: option.splits)

lemma proof_of_work_Some:
  assumes "proof_of_work hf self b start fin = Some (b', h, n, t)"
  shows "nonce b \<le> nonce b'" "meets hf (zeros (difficulty self)) b (nonce b')"
    "\<forall>m. nonce b \<le> m \<and> m < nonce b' \<longrightarrow> \<not> meets hf (zeros (difficulty self)) b m"
    "hash b' = compute_hash hf b'" "startswith (hash b') (zeros (difficulty self))"
    "h = hash b'" "n = nonce b'" "t = fin - start"
    "index b' = index b" "timestamp b' = timestamp b" "data b' = data b"
    "previous_hash b' = previous_hash b"
proof -
  from assms have ml: "mine_loop hf (zeros (difficulty self)) b = Some b'"
    and res: "h = hash b'" "n = nonce b'" "t = fin - start"
    by (auto simp: proof_of_work_def split: option.splits)
  note s = mine_loop_Some [OF ml]
  from s have eq: "b' = b\<lparr>nonce := nonce b', hash := compute_hash hf (b\<lparr>nonce := nonce b'\<rparr>)\<rparr>"
    by blast
  show "nonce b \<le> nonce b'" "meets hf (zeros (difficulty self)) b (nonce b')"
    "\<forall>m. nonce b \<le> m \<and> m < nonce b' \<longrightarrow> \<not> meets hf (zeros (difficulty self)) b m"
    using s by blast+
  show "h = hash b'" "n = nonce b'" "t = fin - start" by (fact res)+
  show "hash b' = compute_hash hf b'" by (rule mined_block(1) [OF eq])
  show "index b' = index b" by (rule mined_block(3) [OF eq])
  show "timestamp b' = timestamp b" by (rule mined_block(4) [OF eq])
  show "data b' = data b" by (rule mined_block(5) [OF eq])
  show "previous_hash b' = previous_hash b" by (rule mined_block(6) [OF eq])
  show "startswith (hash b') (zeros (difficulty self))"
    using mined_block(7) [OF eq] s by blast
qed


subsection \<open>add_block\<close>

lemma add_block_unfold:
  assumes "chain_blocks self \<noteq> []"
  shows "add_block hf self d now start fin =
    (case mine_loop hf (zeros (difficulty self))
        (Block_init hf (index (last (chain_blocks self)) + 1) now d (hash (last (chain_blocks self))) 0) of
       None \<Rightarrow> None
     | Some b \<Rightarrow> Some (Inr (self\<lparr>chain_blocks := chain_blocks self @ [b]\<rparr>,
          \<lparr>s_index = index b, s_hash = hash b, s_nonce = nonce b, s_time_taken_sec = fin - start\<rparr>)))"
  using assms
  by (simp add: add_block_def last_block_def proof_of_work_def Let_def split: option.splits)

lemma add_block_empty: "chain_blocks self = [] \<Longrightarrow> add_block hf self d now start fin = Some (Inl IndexError)"
  by (simp add: add_block_def last_block_def)

lemma add_block_Some:
  assumes ne: "chain_blocks self \<noteq> []"
    and r: "add_block hf self d now start fin = Some r"
  shows "\<exists>b. r = Inr (self\<lparr>chain_blocks := chain_blocks self @ [b]\<rparr>,
             \<lparr>s_index = index b, s_hash = hash b, s_nonce = nonce b, s_time_taken_sec = fin - start\<rparr>)
    \<and> index b = index (last (chain_blocks self)) + 1
    \<and> previous_hash b = hash (last (chain_blocks self))
    \<and> data b = d \<and> timestamp b = now
    \<and> hash b = compute_hash hf b
    \<and> startswith (hash b) (zeros (difficulty self))
    \<and> 0 \<le> nonce b
    \<and> (\<forall>m. 0 \<le> m \<and> m < nonce b \<longrightarrow>
          \<not> meets hf (zeros (difficulty self))
              (Block_init hf (index (last (chain_blocks self)) + 1) now d (hash (last (chain_blocks self))) 0) m)"
proof -
  let ?cand = "Block_init hf (index (last (chain_blocks self)) + 1) now d (hash (last (chain_blocks self))) 0"
  from r obtain b where ml: "mine_loop hf (zeros (difficulty self)) ?cand = Some b"
    and req: "r = Inr (self\<lparr>chain_blocks := chain_blocks self @ [b]\<rparr>,
             \<lparr>s_index = index b, s_hash = hash b, s_nonce = nonce b, s_time_taken_sec = fin - start\<rparr>)"
    by (auto simp: add_block_unfold [OF ne] split: option.splits)
  note s = mine_loop_Some [OF ml]
  from s have eq: "b = ?cand\<lparr>nonce := nonce b, hash := compute_hash hf (?cand\<lparr>nonce := nonce b\<rparr>)\<rparr>"
    by blast
  have c: "nonce ?cand = 0" "index ?cand = index (last (chain_blocks self)) + 1"
    "previous_hash ?cand = hash (last (chain_blocks self))" "data ?cand = d" "timestamp ?cand = now"
    by (simp_all add: Block_init_def)
  have "index b = index (last (chain_blocks self)) + 1"
    using mined_block(3) [OF eq] c by simp
  moreover have "previous_hash b = hash (last (chain_blocks self))"
    using mined_block(6) [OF eq] c by simp
  moreover have "data b = d" using mined_block(5) [OF eq] c by simp
  moreover have "timestamp b = now" using mined_block(4) [OF eq] c by simp
  moreover have "hash b = compute_hash hf b" by (rule mined_block(1) [OF eq])
  moreover have "startswith (hash b) (zeros (difficulty self))"
    using mined_block(7) [OF eq] s by blast
  moreover have "0 \<le> nonce b" using s c by simp
  moreover have "\<forall>m. 0 \<le> m \<and> m < nonce b \<longrightarrow> \<not> meets hf (zeros (difficulty self)) ?cand m"
    using s c by simp
  ultimately show ?thesis using req by blast
qed

lemma add_block_None_iff:
  assumes "chain_blocks self \<noteq> []"
  shows "add_block hf self d now start fin = None \<longleftrightarrow>
    (\<forall>m. 0 \<le> m \<longrightarrow> \<not> meets hf (zeros (difficulty self))
       (Block_init hf (index (last (chain_blocks self)) + 1) now d (hash (last (chain_blocks self))) 0) m)"
proof -
  let ?cand = "Block_init hf (index (last (chain_blocks self)) + 1) now d (hash (last (chain_blocks self))) 0"
  have n: "nonce ?cand = 0"
    by (simp add: Block_init_def)
  have "add_block hf self d now start fin = None \<longleftrightarrow>
      mine_loop hf (zeros (difficulty self)) ?cand = None"
    by (simp add: add_block_unfold [OF assms] split: option.splits)
  also have "\<dots> \<longleftrightarrow> (\<forall>m. nonce ?cand \<le> m \<longrightarrow> \<not> meets hf (zeros (difficulty self)) ?cand m)"
    by (rule mine_loop_None_iff)
  finally show ?thesis unfolding n .
qed


subsection \<open>Chains built by the constructor and add_block\<close>




lemma Blockchain_init_Some:
  assumes "Blockchain_init hf d now start fin = Some self"
  shows "\<exists>g. chain_blocks self = [g] \<and> difficulty self = d \<and> index g = 0"
proof -
  from assms obtain g h n t where
    p: "proof_of_work hf \<lparr>chain_blocks = [], difficulty = d\<rparr>
          (Block_init hf 0 now (PStr ''Genesis Block'') ''0'' 0) start fin = Some (g, h, n, t)"
    and s: "self = \<lparr>chain_blocks = [g\<lparr>hash := h\<rparr>], difficulty = d\<rparr>"
    by (auto simp: Blockchain_init_def create_genesis_block_def split: option.splits)
  from proof_of_work_Some(9) [OF p] have "index g = 0" by (simp add: Block_init_def)
  with s show ?thesis by simp
qed



subsection \<open>Outcome of validation\<close>

lemma is_chain_valid_first_failure:
  assumes "1 \<le> j" "j < length (chain_blocks self)"
    "failed_check hf (zeros (difficulty self)) (chain_blocks self) j = Some k"
    "\<forall>m. 1 \<le> m \<and> m < j \<longrightarrow> failed_check hf (zeros (difficulty self)) (chain_blocks self) m = None"
  shows "is_chain_valid hf self = (False, failure_message (chain_blocks self ! j) k)"
  unfolding is_chain_valid_def
  by (rule valid_loop_first_failure) (use assms in simp_all)

lemma is_chain_valid_fst:
  "fst (is_chain_valid hf self) \<longleftrightarrow> is_chain_valid hf self = (True, ''Chain is valid.'')"
  by (simp add: is_chain_valid_def valid_loop_find split: option.splits)


subsection \<open>Tampering\<close>

lemma tamper_in_range:
  assumes "0 < i" "i < int (length (chain_blocks self))"
  shows "tamper_with_block self i new_data =
    (None, self\<lparr>chain_blocks := (chain_blocks self)[nat i := (chain_blocks self ! nat i)\<lparr>data := new_data\<rparr>]\<rparr>)"
  using assms by (simp add: tamper_with_block_def)

lemma tamper_same_data:
  assumes "0 < i" "i < int (length (chain_blocks self))"
  shows "tamper_with_block self i (data (chain_blocks self ! nat i)) = (None, self)"
  using assms by (simp add: tamper_in_range)

lemma failed_check_cong:
  assumes "bs' ! i = bs ! i" "bs' ! (i - 1) = bs ! (i - 1)"
  shows "failed_check hf target bs' i = failed_check hf target bs i"
  using assms by (simp add: failed_check_def)

lemma tampered_first_failure:
  assumes v: "is_chain_valid hf self = (True, ''Chain is valid.'')"
    and n: "1 \<le> n" "n < length (chain_blocks self)"
    and h: "compute_hash hf ((chain_blocks self ! n)\<lparr>data := new_data\<rparr>) \<noteq> hash (chain_blocks self ! n)"
  shows "is_chain_valid hf (self\<lparr>chain_blocks := (chain_blocks self)[n := (chain_blocks self ! n)\<lparr>data := new_data\<rparr>]\<rparr>)
    = (False, failure_message (chain_blocks self ! n) HashMismatch)"
proof -
  let ?bs = "chain_blocks self" and ?t = "zeros (difficulty self)"
  let ?bs' = "?bs[n := (?bs ! n)\<lparr>data := new_data\<rparr>]"
  let ?self' = "self\<lparr>chain_blocks := ?bs'\<rparr>"
  from v have ok: "failed_check hf ?t ?bs j = None" if "1 \<le> j" "j < length ?bs" for j
    using that by (simp add: is_chain_valid_ok_iff)
  have before: "failed_check hf ?t ?bs' m = None" if "1 \<le> m" "m < n" for m
  proof -
    from that n have "?bs' ! m = ?bs ! m" "?bs' ! (m - 1) = ?bs ! (m - 1)" by simp_all
    then have "failed_check hf ?t ?bs' m = failed_check hf ?t ?bs m"
      by (rule failed_check_cong)
    moreover from that n have "failed_check hf ?t ?bs m = None" by (intro ok) simp_all
    ultimately show ?thesis by simp
  qed
  from ok [OF n] have link: "previous_hash (?bs ! n) = hash (?bs ! (n - 1))"
    by (simp add: failed_check_def split: if_splits)
  from n have "?bs' ! n = (?bs ! n)\<lparr>data := new_data\<rparr>" "?bs' ! (n - 1) = ?bs ! (n - 1)"
    by simp_all
  with link h have at: "failed_check hf ?t ?bs' n = Some HashMismatch"
    by (simp add: failed_check_def)
  have "is_chain_valid hf ?self' = (False, failure_message (chain_blocks ?self' ! n) HashMismatch)"
    by (rule is_chain_valid_first_failure) (use n at before in simp_all)
  with n show ?thesis by (simp add: failure_message_def)
qed

lemma add_block_index:
  assumes ix: "\<forall>k < length (chain_blocks self). index (chain_blocks self ! k) = int k"
    and ne: "chain_blocks self \<noteq> []"
    and a: "add_block hf self d now start fin = Some (Inr (self', sm))"
  shows "\<forall>k < length (chain_blocks self'). index (chain_blocks self' ! k) = int k"
proof -
  from add_block_Some [OF ne a] obtain b where
    s: "self' = self\<lparr>chain_blocks := chain_blocks self @ [b]\<rparr>"
    and b: "index b = index (last (chain_blocks self)) + 1"
    by auto
  from ne ix have "index (last (chain_blocks self)) = int (length (chain_blocks self) - 1)"
    by (simp add: last_conv_nth)
  with b ne have "index b = int (length (chain_blocks self))"
    by (cases "chain_blocks self") simp_all
  with ix s show ?thesis by (auto simp: nth_append)
qed

subsection \<open>The failure messages determine the block index and the check\<close>

lemma digit_char_codes:
  "\<forall>d \<in> set [0, 1, 2, 3, 4, 5, 6, 7, 8, 9]. of_char (digit_char d) = (48 + d :: nat)"
  by (simp add: digit_char_def)

lemma digit_char_of_char:
  assumes "d < 10"
  shows "of_char (digit_char d) = (48 + d :: nat)"
proof -
  from assms have "d \<in> set [0, 1, 2, 3, 4, 5, 6, 7, 8, 9]" by simp arith
  with digit_char_codes show ?thesis by blast
qed

lemma digit_char_inj:
  assumes "d < 10" "e < 10" "digit_char d = digit_char e"
  shows "d = e"
proof -
  have "48 + d = (of_char (digit_char d) :: nat)"
    by (rule digit_char_of_char [OF assms(1), symmetric])
  also have "\<dots> = of_char (digit_char e)"
    by (simp only: assms(3))
  also have "\<dots> = 48 + e"
    by (rule digit_char_of_char [OF assms(2)])
  finally show ?thesis by simp
qed

lemma digit_char_not_space:
  assumes "d < 10"
  shows "digit_char d \<noteq> CHR '' ''" "CHR '' '' \<noteq> digit_char d"
proof -
  have "(of_char (digit_char d) :: nat) \<noteq> of_char (CHR '' '')"
    using digit_char_of_char [OF assms] by simp
  then have "digit_char d \<noteq> CHR '' ''" by (rule contrapos_nn) (rule arg_cong)
  then show "digit_char d \<noteq> CHR '' ''" .
  then show "CHR '' '' \<noteq> digit_char d" by (rule not_sym)
qed

lemma digit_char_not_minus:
  assumes "d < 10"
  shows "digit_char d \<noteq> CHR ''-''" "CHR ''-'' \<noteq> digit_char d"
proof -
  have "(of_char (digit_char d) :: nat) \<noteq> of_char (CHR ''-'')"
    using digit_char_of_char [OF assms] by simp
  then have "digit_char d \<noteq> CHR ''-''" by (rule contrapos_nn) (rule arg_cong)
  then show "digit_char d \<noteq> CHR ''-''" .
  then show "CHR ''-'' \<noteq> digit_char d" by (rule not_sym)
qed

lemma str_nat_not_Nil: "str_nat n \<noteq> []"
  by (subst str_nat.simps) simp

lemma str_nat_no_space: "CHR '' '' \<notin> set (str_nat n)"
proof (induction n rule: str_nat.induct)
  case (1 n)
  show ?case
  proof (cases "n < 10")
    case True
    then show ?thesis by (subst str_nat.simps) (simp add: digit_char_not_space)
  next
    case False
    with 1 show ?thesis by (subst str_nat.simps) (simp add: digit_char_not_space)
  qed
qed

lemma str_nat_inj: "str_nat m = str_nat n \<Longrightarrow> m = n"
proof (induction m arbitrary: n rule: str_nat.induct)
  case (1 m)
  show ?case
  proof (cases "m < 10")
    case True
    show ?thesis
    proof (cases "n < 10")
      case n: True
      from "1.prems" True n have "digit_char m = digit_char n"
        by (simp add: str_nat.simps [of m] str_nat.simps [of n])
      from digit_char_inj [OF True n this] show ?thesis .
    next
      case False
      with "1.prems" True str_nat_not_Nil [of "n div 10"] show ?thesis
        by (simp add: str_nat.simps [of m] str_nat.simps [of n])
    qed
  next
    case False
    show ?thesis
    proof (cases "n < 10")
      case True
      with "1.prems" False str_nat_not_Nil [of "m div 10"] show ?thesis
        by (simp add: str_nat.simps [of m] str_nat.simps [of n])
    next
      case n: False
      from "1.prems" False n have "str_nat (m div 10) = str_nat (n div 10)"
        "digit_char (m mod 10) = digit_char (n mod 10)"
        by (simp_all add: str_nat.simps [of m] str_nat.simps [of n])
      with "1.IH" [OF False] have "m div 10 = n div 10" "m mod 10 = n mod 10"
        by (auto intro: digit_char_inj)
      moreover have "m = 10 * (m div 10) + m mod 10" "n = 10 * (n div 10) + n mod 10"
        by simp_all
      ultimately show ?thesis by simp
    qed
  qed
qed

lemma str_nat_no_minus: "CHR ''-'' \<notin> set (str_nat n)"
proof (induction n rule: str_nat.induct)
  case (1 n)
  note d = digit_char_not_minus
  show ?case
  proof (cases "n < 10")
    case True
    then show ?thesis by (subst str_nat.simps) (simp add: d)
  next
    case False
    with 1 show ?thesis by (subst str_nat.simps) (simp add: d)
  qed
qed

lemma str_int_inj: "str_int i = str_int j \<Longrightarrow> i = j"
proof -
  assume a: "str_int i = str_int j"
  have hd: "hd (str_nat n) \<noteq> CHR ''-''" for n
    using str_nat_no_minus [of n] str_nat_not_Nil [of n] by (cases "str_nat n") auto
  consider "i < 0" "j < 0" | "i < 0" "\<not> j < 0" | "\<not> i < 0" "j < 0" | "\<not> i < 0" "\<not> j < 0"
    by blast
  then show ?thesis
  proof cases
    case 1
    with a have "str_nat (nat (- i)) = str_nat (nat (- j))" by (simp add: str_int_def)
    then have "nat (- i) = nat (- j)" by (rule str_nat_inj)
    with 1 show ?thesis by simp
  next
    case 2
    with a have "str_nat (nat j) = CHR ''-'' # str_nat (nat (- i))" by (simp add: str_int_def)
    then have "hd (str_nat (nat j)) = CHR ''-''" by simp
    with hd show ?thesis by blast
  next
    case 3
    with a have "str_nat (nat i) = CHR ''-'' # str_nat (nat (- j))" by (simp add: str_int_def)
    then have "hd (str_nat (nat i)) = CHR ''-''" by simp
    with hd show ?thesis by blast
  next
    case 4
    with a have "str_nat (nat i) = str_nat (nat j)" by (simp add: str_int_def)
    then have "nat i = nat j" by (rule str_nat_inj)
    with 4 show ?thesis by simp
  qed
qed

lemma str_int_no_space: "CHR '' '' \<notin> set (str_int i)"
  by (simp add: str_int_def str_nat_no_space)

lemma split_at_space:
  assumes "CHR '' '' \<notin> set xs" "CHR '' '' \<notin> set ys" "xs @ CHR '' '' # u = ys @ CHR '' '' # v"
  shows "xs = ys \<and> u = v"
proof -
  from assms(1) have "takeWhile (\<lambda>c. c \<noteq> CHR '' '') (xs @ CHR '' '' # u) = xs"
    by (subst takeWhile_append2) auto
  moreover from assms(2) have "takeWhile (\<lambda>c. c \<noteq> CHR '' '') (ys @ CHR '' '' # v) = ys"
    by (subst takeWhile_append2) auto
  ultimately have "xs = ys" using assms(3) by simp
  with assms(3) show ?thesis by simp
qed

lemma failure_message_inj:
  assumes "failure_message b k = failure_message b' k'"
  shows "index b = index b' \<and> k = k'"
proof -
  let ?s = "\<lambda>k. case k of PreviousHash \<Rightarrow> ''previous_hash mismatch.''
        | HashMismatch \<Rightarrow> ''hash mismatch.'' | Difficulty \<Rightarrow> ''does not meet difficulty.''"
  have m: "failure_message b k = ''Block '' @ str_int (index b) @ CHR '' '' # ?s k" for b k
    by (cases k) (simp_all add: failure_message_def)
  from assms have "str_int (index b) @ CHR '' '' # ?s k = str_int (index b') @ CHR '' '' # ?s k'"
    by (simp only: m same_append_eq)
  from split_at_space [OF str_int_no_space str_int_no_space this]
  have "str_int (index b) = str_int (index b')" "?s k = ?s k'" by simp_all
  from str_int_inj [OF this(1)] this(2) show ?thesis by (cases k; cases k') simp_all
qed

subsection \<open>Runs of the constructor, add_block and payload mutation\<close>

lemma length_refresh [simp]: "length (refresh a v held bs) = length bs"
  by (simp add: refresh_def)

lemma refresh_nth:
  "k < length bs \<Longrightarrow>
     refresh a v held bs ! k =
       (if k < length held \<and> held ! k = Some a then (bs ! k)\<lparr>data := v\<rparr> else bs ! k)"
  by (simp add: refresh_def)

lemma refresh_index: "k < length bs \<Longrightarrow> index (refresh a v held bs ! k) = index (bs ! k)"
  by (simp add: refresh_nth)


lemma refresh_Nil_iff [simp]: "refresh a v held bs = [] \<longleftrightarrow> bs = []"
  by (simp add: refresh_def)

lemma mutate_Some:
  assumes "mutate w a v = Some w'"
  shows "w_held w' = w_held w" "difficulty (w_chain w') = difficulty (w_chain w)"
    "chain_blocks (w_chain w') = refresh a v (w_held w) (chain_blocks (w_chain w))"
  using assms by (auto simp: mutate_def split: if_splits)




lemma run_steps_index:
  assumes "\<forall>k < length (chain_blocks (w_chain w)). index (chain_blocks (w_chain w) ! k) = int k"
    and "chain_blocks (w_chain w) \<noteq> []"
    and "run_steps hf w sts = Some w'"
  shows "\<forall>k < length (chain_blocks (w_chain w')). index (chain_blocks (w_chain w') ! k) = int k"
  using assms
proof (induction sts arbitrary: w)
  case Nil
  then show ?case by simp
next
  case (Cons st sts)
  show ?case
  proof (cases st)
    case (Add_block a now start fin)
    from Cons.prems(3) obtain s1 sm where
      a: "add_block hf (w_chain w) (w_store w a) now start fin = Some (Inr (s1, sm))"
      and r: "run_steps hf (w\<lparr>w_chain := s1, w_held := w_held w @ [Some a]\<rparr>) sts = Some w'"
      by (auto simp: Add_block split: option.splits sum.splits)
    from add_block_Some [OF Cons.prems(2) a] have ne: "chain_blocks s1 \<noteq> []" by auto
    show ?thesis
    proof (rule Cons.IH [OF _ _ r])
      show "\<forall>k<length (chain_blocks (w_chain (w\<lparr>w_chain := s1, w_held := w_held w @ [Some a]\<rparr>))).
          index (chain_blocks (w_chain (w\<lparr>w_chain := s1, w_held := w_held w @ [Some a]\<rparr>)) ! k) = int k"
        using add_block_index [OF Cons.prems(1,2) a] by simp
      show "chain_blocks (w_chain (w\<lparr>w_chain := s1, w_held := w_held w @ [Some a]\<rparr>)) \<noteq> []"
        using ne by simp
    qed
  next
    case (Mutate a v)
    from Cons.prems(3) obtain w1 where m: "mutate w a v = Some w1"
      and r: "run_steps hf w1 sts = Some w'"
      by (auto simp: Mutate split: option.splits)
    note c = mutate_Some(3) [OF m]
    show ?thesis
    proof (rule Cons.IH [OF _ _ r])
      show "\<forall>k<length (chain_blocks (w_chain w1)). index (chain_blocks (w_chain w1) ! k) = int k"
        using Cons.prems(1) by (simp add: c refresh_index)
      show "chain_blocks (w_chain w1) \<noteq> []"
        using Cons.prems(2) by (simp add: c)
    qed
  qed
qed

lemma run_index:
  assumes "run hf d clk store sts = Some w" "k < length (chain_blocks (w_chain w))"
  shows "index (chain_blocks (w_chain w) ! k) = int k"
proof -
  obtain now start fin where clk: "clk = (now, start, fin)" by (cases clk) auto
  from assms(1) obtain s0 where i: "Blockchain_init hf d now start fin = Some s0"
    and r: "run_steps hf \<lparr>w_chain = s0, w_store = store, w_held = [None]\<rparr> sts = Some w"
    by (auto simp: run_def clk split: option.splits)
  from Blockchain_init_Some [OF i]
  have "\<forall>k < length (chain_blocks (w_chain \<lparr>w_chain = s0, w_store = store, w_held = [None]\<rparr>)).
      index (chain_blocks (w_chain \<lparr>w_chain = s0, w_store = store, w_held = [None]\<rparr>) ! k) = int k"
    "chain_blocks (w_chain \<lparr>w_chain = s0, w_store = store, w_held = [None]\<rparr>) \<noteq> []"
    by auto
  from run_steps_index [OF this r] assms(2) show ?thesis by blast
qed




lemma mutate_consistent:
  assumes "consistent w" "mutate w a v = Some w'"
  shows "consistent w'"
proof -
  from assms(2) have w': "w_held w' = w_held w" "w_store w' = (w_store w)(a := v)"
    "chain_blocks (w_chain w') = refresh a v (w_held w) (chain_blocks (w_chain w))"
    by (auto simp: mutate_def split: if_splits)
  from assms(1) have len: "length (w_held w) = length (chain_blocks (w_chain w))"
    and dat: "\<And>k b. k < length (w_held w) \<Longrightarrow> w_held w ! k = Some b
        \<Longrightarrow> data (chain_blocks (w_chain w) ! k) = w_store w b"
    by (auto simp: consistent_def)
  show ?thesis
    unfolding consistent_def w'
  proof (intro conjI allI impI)
    show "length (w_held w) = length (refresh a v (w_held w) (chain_blocks (w_chain w)))"
      using len by simp
  next
    fix k b
    assume kb: "k < length (w_held w) \<and> w_held w ! k = Some b"
    then have k: "k < length (chain_blocks (w_chain w))" using len by simp
    show "data (refresh a v (w_held w) (chain_blocks (w_chain w)) ! k) = ((w_store w)(a := v)) b"
    proof (cases "b = a")
      case True
      with kb k show ?thesis by (simp add: refresh_nth)
    next
      case False
      with kb k dat [of k b] show ?thesis by (simp add: refresh_nth)
    qed
  qed
qed

lemma add_block_consistent:
  assumes c: "consistent w" and ne: "chain_blocks (w_chain w) \<noteq> []"
    and a: "add_block hf (w_chain w) (w_store w a) now start fin = Some (Inr (s1, sm))"
  shows "consistent (w\<lparr>w_chain := s1, w_held := w_held w @ [Some a]\<rparr>)"
proof -
  from add_block_Some [OF ne a] obtain b where
    s1: "s1 = (w_chain w)\<lparr>chain_blocks := chain_blocks (w_chain w) @ [b]\<rparr>"
    and b: "data b = w_store w a"
    by auto
  from c have len: "length (w_held w) = length (chain_blocks (w_chain w))"
    and dat: "\<And>k b. k < length (w_held w) \<Longrightarrow> w_held w ! k = Some b
        \<Longrightarrow> data (chain_blocks (w_chain w) ! k) = w_store w b"
    by (auto simp: consistent_def)
  show ?thesis
    unfolding consistent_def
  proof (intro conjI allI impI)
    show "length (w_held (w\<lparr>w_chain := s1, w_held := w_held w @ [Some a]\<rparr>))
        = length (chain_blocks (w_chain (w\<lparr>w_chain := s1, w_held := w_held w @ [Some a]\<rparr>)))"
      using len by (simp add: s1)
  next
    fix k c
    assume kc: "k < length (w_held (w\<lparr>w_chain := s1, w_held := w_held w @ [Some a]\<rparr>))
        \<and> w_held (w\<lparr>w_chain := s1, w_held := w_held w @ [Some a]\<rparr>) ! k = Some c"
    show "data (chain_blocks (w_chain (w\<lparr>w_chain := s1, w_held := w_held w @ [Some a]\<rparr>)) ! k)
        = w_store (w\<lparr>w_chain := s1, w_held := w_held w @ [Some a]\<rparr>) c"
    proof (cases "k < length (w_held w)")
      case True
      with kc have "w_held w ! k = Some c" by (simp add: nth_append)
      from dat [OF True this] True len show ?thesis by (simp add: s1 nth_append)
    next
      case False
      with kc have "k = length (w_held w)" by simp
      with kc have "c = a" by (simp add: nth_append)
      with \<open>k = length (w_held w)\<close> len b show ?thesis by (simp add: s1 nth_append)
    qed
  qed
qed

lemma run_steps_consistent:
  assumes "consistent w" "chain_blocks (w_chain w) \<noteq> []" "run_steps hf w sts = Some w'"
  shows "consistent w'"
  using assms
proof (induction sts arbitrary: w)
  case Nil
  then show ?case by simp
next
  case (Cons st sts)
  show ?case
  proof (cases st)
    case (Add_block a now start fin)
    from Cons.prems(3) obtain s1 sm where
      a: "add_block hf (w_chain w) (w_store w a) now start fin = Some (Inr (s1, sm))"
      and r: "run_steps hf (w\<lparr>w_chain := s1, w_held := w_held w @ [Some a]\<rparr>) sts = Some w'"
      by (auto simp: Add_block split: option.splits sum.splits)
    from add_block_Some [OF Cons.prems(2) a] have ne: "chain_blocks s1 \<noteq> []" by auto
    show ?thesis
    proof (rule Cons.IH [OF _ _ r])
      show "consistent (w\<lparr>w_chain := s1, w_held := w_held w @ [Some a]\<rparr>)"
        by (rule add_block_consistent [OF Cons.prems(1,2) a])
      show "chain_blocks (w_chain (w\<lparr>w_chain := s1, w_held := w_held w @ [Some a]\<rparr>)) \<noteq> []"
        using ne by simp
    qed
  next
    case (Mutate a v)
    from Cons.prems(3) obtain w1 where m: "mutate w a v = Some w1"
      and r: "run_steps hf w1 sts = Some w'"
      by (auto simp: Mutate split: option.splits)
    show ?thesis
    proof (rule Cons.IH [OF _ _ r])
      show "consistent w1" by (rule mutate_consistent [OF Cons.prems(1) m])
      show "chain_blocks (w_chain w1) \<noteq> []"
        using Cons.prems(2) by (simp add: mutate_Some(3) [OF m])
    qed
  qed
qed

lemma run_consistent:
  assumes "run hf d clk store sts = Some w"
  shows "consistent w"
proof -
  obtain now start fin where clk: "clk = (now, start, fin)" by (cases clk) auto
  from assms obtain s0 where i: "Blockchain_init hf d now start fin = Some s0"
    and r: "run_steps hf \<lparr>w_chain = s0, w_store = store, w_held = [None]\<rparr> sts = Some w"
    by (auto simp: run_def clk split: option.splits)
  from Blockchain_init_Some [OF i] obtain g where g: "chain_blocks s0 = [g]" by auto
  then have "consistent \<lparr>w_chain = s0, w_store = store, w_held = [None]\<rparr>"
    by (simp add: consistent_def)
  moreover have "chain_blocks (w_chain \<lparr>w_chain = s0, w_store = store, w_held = [None]\<rparr>) \<noteq> []"
    using g by simp
  ultimately show ?thesis using r by (rule run_steps_consistent)
qed

subsection \<open>Evaluation of runs\<close>

lemma run_demo:
  "run demo_digest 2 (1000, 1000, 1001) demo_store
     [Add_block 0 1010 1010 1012, Add_block 1 1020 1020 1025]
   = Some \<lparr>w_chain = demo_chain, w_store = demo_store, w_held = [None, Some 0, Some 1]\<rparr>"
  by (simp add: run_def init_demo add1_demo add2_demo demo_store_def)







subsection \<open>True division\<close>















subsection \<open>average_nonce\<close>


section \<open>Properties\<close>

subsection \<open>C1\<close>

text \<open>
  C1 (as amended). On a chain that validates, \<^verbatim>\<open>tamper_with_block\<close> at an index \<open>i\<close> with
  \<open>0 < i < length\<close> replaces the data of block \<open>i\<close> and keeps its stored hash; if the digest
  recomputed from the block with the new data differs from that stored hash, the next
  \<^verbatim>\<open>is_chain_valid\<close> returns the failure \<open>Block n hash mismatch.\<close> where \<open>n\<close> is the index
  attribute of block \<open>i\<close>, and \<open>n = i\<close> for every chain built by the constructor and
  \<^verbatim>\<open>add_block\<close>, mutated payloads or not. The result is the message of no other block index
  and of no other check.
\<close>

theorem tamper_detected:
  assumes "is_chain_valid hf self = (True, ''Chain is valid.'')"
    and "0 < i" and "i < int (length (chain_blocks self))"
    and "compute_hash hf ((chain_blocks self ! nat i)\<lparr>data := new_data\<rparr>)
           \<noteq> hash (chain_blocks self ! nat i)"
  shows "fst (tamper_with_block self i new_data) = None
    \<and> data (chain_blocks (snd (tamper_with_block self i new_data)) ! nat i) = new_data
    \<and> hash (chain_blocks (snd (tamper_with_block self i new_data)) ! nat i)
         = hash (chain_blocks self ! nat i)
    \<and> is_chain_valid hf (snd (tamper_with_block self i new_data))
         = (False, ''Block '' @ str_int (index (chain_blocks self ! nat i)) @ '' hash mismatch.'')
    \<and> (\<forall>d clk store sts w. run hf d clk store sts = Some w \<and> w_chain w = self \<longrightarrow>
          is_chain_valid hf (snd (tamper_with_block self i new_data))
            = (False, ''Block '' @ str_int i @ '' hash mismatch.''))
    \<and> (\<forall>b k. is_chain_valid hf (snd (tamper_with_block self i new_data)) = (False, failure_message b k)
          \<longrightarrow> index b = index (chain_blocks self ! nat i) \<and> k = HashMismatch)"
proof -
  from assms(2,3) have n: "1 \<le> nat i" "nat i < length (chain_blocks self)" by simp_all
  note t = tamper_in_range [OF assms(2,3), of new_data]
  have f: "is_chain_valid hf (snd (tamper_with_block self i new_data))
      = (False, failure_message (chain_blocks self ! nat i) HashMismatch)"
    using tampered_first_failure [OF assms(1) n assms(4)] by (simp add: t)
  then have v: "is_chain_valid hf (snd (tamper_with_block self i new_data))
      = (False, ''Block '' @ str_int (index (chain_blocks self ! nat i)) @ '' hash mismatch.'')"
    by (simp add: failure_message_def)
  have ix: "index (chain_blocks self ! nat i) = i"
    if "run hf d clk store sts = Some w \<and> w_chain w = self" for d clk store sts w
  proof -
    from that n(2) have "nat i < length (chain_blocks (w_chain w))" by simp
    from run_index [OF that [THEN conjunct1] this] that assms(2) show ?thesis by simp
  qed
  have only: "index b = index (chain_blocks self ! nat i) \<and> k = HashMismatch"
    if "is_chain_valid hf (snd (tamper_with_block self i new_data)) = (False, failure_message b k)"
    for b k
  proof -
    from that f have "failure_message b k = failure_message (chain_blocks self ! nat i) HashMismatch"
      by simp
    then show ?thesis by (rule failure_message_inj)
  qed
  have "fst (tamper_with_block self i new_data) = None"
    "data (chain_blocks (snd (tamper_with_block self i new_data)) ! nat i) = new_data"
    "hash (chain_blocks (snd (tamper_with_block self i new_data)) ! nat i)
         = hash (chain_blocks self ! nat i)"
    using n by (simp_all add: t)
  with v ix only show ?thesis by simp
qed

theorem tamper_detected_witness:
  "is_chain_valid demo_digest demo_chain = (True, ''Chain is valid.'')
   \<and> (0::int) < 1 \<and> 1 < int (length (chain_blocks demo_chain))
   \<and> compute_hash demo_digest ((chain_blocks demo_chain ! nat 1)\<lparr>data := PStr ''Hacked data''\<rparr>)
        \<noteq> hash (chain_blocks demo_chain ! nat 1)
   \<and> tamper_with_block demo_chain 1 (PStr ''Hacked data'') =
       (None, \<lparr>chain_blocks = [demo_genesis, demo_block1\<lparr>data := PStr ''Hacked data''\<rparr>, demo_block2],
               difficulty = 2\<rparr>)
   \<and> is_chain_valid demo_digest
        \<lparr>chain_blocks = [demo_genesis, demo_block1\<lparr>data := PStr ''Hacked data''\<rparr>, demo_block2],
         difficulty = 2\<rparr> = (False, ''Block 1 hash mismatch.'')"
proof -
  have h: "(0::int) < 1" "1 < int (length (chain_blocks demo_chain))"
    "compute_hash demo_digest ((chain_blocks demo_chain ! nat 1)\<lparr>data := PStr ''Hacked data''\<rparr>)
        \<noteq> hash (chain_blocks demo_chain ! nat 1)"
    by (simp_all add: demo_defs digest_eval)
  have t: "tamper_with_block demo_chain 1 (PStr ''Hacked data'') =
       (None, \<lparr>chain_blocks = [demo_genesis, demo_block1\<lparr>data := PStr ''Hacked data''\<rparr>, demo_block2],
               difficulty = 2\<rparr>)"
    by (simp add: tamper_with_block_def demo_chain_def)
  have w: "w_chain \<lparr>w_chain = demo_chain, w_store = demo_store, w_held = [None, Some 0, Some 1]\<rparr>
      = demo_chain"
    by simp
  from tamper_detected [OF valid_demo h] run_demo w
  have "is_chain_valid demo_digest (snd (tamper_with_block demo_chain 1 (PStr ''Hacked data'')))
      = (False, ''Block '' @ str_int 1 @ '' hash mismatch.'')"
    by blast
  then have "is_chain_valid demo_digest
        \<lparr>chain_blocks = [demo_genesis, demo_block1\<lparr>data := PStr ''Hacked data''\<rparr>, demo_block2],
         difficulty = 2\<rparr> = (False, ''Block 1 hash mismatch.'')"
    by (simp add: t str_int_def str_nat.simps digit_char_def)
  with valid_demo h t show ?thesis by simp
qed

text \<open>
  C1 as stated, for every new payload, does not hold: on the valid demo chain, writing to
  block 1 the payload it already has is a successful call at a valid index, and the chain
  validates afterwards.
\<close>

theorem tamper_same_data_counterexample:
  "is_chain_valid demo_digest demo_chain = (True, ''Chain is valid.'')
   \<and> (0::int) < 1 \<and> 1 < int (length (chain_blocks demo_chain))
   \<and> tamper_with_block demo_chain 1 (PStr ''First transaction'') = (None, demo_chain)
   \<and> is_chain_valid demo_digest (snd (tamper_with_block demo_chain 1 (PStr ''First transaction'')))
       = (True, ''Chain is valid.'')"
proof -
  have t: "tamper_with_block demo_chain 1 (PStr ''First transaction'') = (None, demo_chain)"
    by (simp add: tamper_with_block_def demo_defs)
  with valid_demo show ?thesis by (simp add: demo_chain_def)
qed

subsection \<open>C2\<close>

text \<open>
  C2. \<^verbatim>\<open>is_chain_valid\<close> is the validation of the specification: it visits the positions
  from 1 on in order, applies to each block the checks (a) link to the predecessor's stored
  hash, (b) recomputed digest against stored hash, (c) difficulty prefix, in that order,
  and returns the failure of the first position where a check fails, naming the index
  attribute of that block and the check (the message determines both); it returns success
  exactly when every check passes at every position.
\<close>

theorem is_chain_valid_reports_first_failure:
  "is_chain_valid hf self = validate_spec hf self
   \<and> (is_chain_valid hf self = (True, ''Chain is valid.'') \<longleftrightarrow>
        (\<forall>j. 1 \<le> j \<and> j < length (chain_blocks self) \<longrightarrow>
           failed_check hf (zeros (difficulty self)) (chain_blocks self) j = None))
   \<and> (fst (is_chain_valid hf self) \<longleftrightarrow> is_chain_valid hf self = (True, ''Chain is valid.''))
   \<and> (\<forall>j k. 1 \<le> j \<and> j < length (chain_blocks self)
         \<and> failed_check hf (zeros (difficulty self)) (chain_blocks self) j = Some k
         \<and> (\<forall>m. 1 \<le> m \<and> m < j \<longrightarrow>
               failed_check hf (zeros (difficulty self)) (chain_blocks self) m = None)
        \<longrightarrow> is_chain_valid hf self = (False, failure_message (chain_blocks self ! j) k))
   \<and> (\<forall>b k b' k'. failure_message b k = failure_message b' k' \<longrightarrow> index b = index b' \<and> k = k')"
  using is_chain_valid_spec [of hf self] is_chain_valid_ok_iff [of hf self]
    is_chain_valid_fst [of hf self] is_chain_valid_first_failure [of _ self hf]
    failure_message_inj
  by blast


theorem is_chain_valid_reports_first_failure_witness:
  "failed_check demo_digest ''00''
      [demo_genesis, demo_block1\<lparr>data := PStr ''Hacked data''\<rparr>, demo_block2\<lparr>previous_hash := ''bad''\<rparr>] 1
     = Some HashMismatch
   \<and> failed_check demo_digest ''00''
      [demo_genesis, demo_block1\<lparr>data := PStr ''Hacked data''\<rparr>, demo_block2\<lparr>previous_hash := ''bad''\<rparr>] 2
     = Some PreviousHash
   \<and> is_chain_valid demo_digest
       \<lparr>chain_blocks = [demo_genesis, demo_block1\<lparr>data := PStr ''Hacked data''\<rparr>,
                         demo_block2\<lparr>previous_hash := ''bad''\<rparr>], difficulty = 2\<rparr>
     = (False, ''Block 1 hash mismatch.'')
   \<and> validate_spec demo_digest
       \<lparr>chain_blocks = [demo_genesis, demo_block1\<lparr>data := PStr ''Hacked data''\<rparr>,
                         demo_block2\<lparr>previous_hash := ''bad''\<rparr>], difficulty = 2\<rparr>
     = (False, ''Block 1 hash mismatch.'')
   \<and> is_chain_valid demo_digest demo_chain = (True, ''Chain is valid.'')
   \<and> failed_check demo_digest ''00'' (chain_blocks demo_chain) 1 = None
   \<and> failed_check demo_digest ''00'' (chain_blocks demo_chain) 2 = None"
proof -
  let ?bs = "[demo_genesis, demo_block1\<lparr>data := PStr ''Hacked data''\<rparr>, demo_block2\<lparr>previous_hash := ''bad''\<rparr>]"
  let ?c = "\<lparr>chain_blocks = ?bs, difficulty = 2\<rparr>"
  have f1: "failed_check demo_digest ''00'' ?bs 1 = Some HashMismatch"
    by (simp add: failed_check_def demo_defs digest_eval)
  have f2: "failed_check demo_digest ''00'' ?bs 2 = Some PreviousHash"
    by (simp add: failed_check_def demo_defs digest_eval)
  have m: "failure_message (?bs ! 1) HashMismatch = ''Block 1 hash mismatch.''"
    by (simp add: failure_message_def demo_defs str_int_def str_nat.simps digit_char_def)
  note t = is_chain_valid_reports_first_failure [of demo_digest ?c]
  have "is_chain_valid demo_digest ?c = (False, failure_message (chain_blocks ?c ! 1) HashMismatch)"
    by (rule t [THEN conjunct2, THEN conjunct2, THEN conjunct2, THEN conjunct1, rule_format])
      (use f1 in \<open>simp add: zeros_2\<close>)
  then have "is_chain_valid demo_digest ?c = (False, failure_message (?bs ! 1) HashMismatch)"
    by simp
  then have r: "is_chain_valid demo_digest ?c = (False, ''Block 1 hash mismatch.'')"
    by (simp only: m)
  with t have s: "validate_spec demo_digest ?c = (False, ''Block 1 hash mismatch.'')"
    by simp
  note t' = is_chain_valid_reports_first_failure [of demo_digest demo_chain]
  from t' valid_demo
  have all: "\<forall>j. 1 \<le> j \<and> j < length (chain_blocks demo_chain) \<longrightarrow>
      failed_check demo_digest (zeros (difficulty demo_chain)) (chain_blocks demo_chain) j = None"
    by blast
  have "failed_check demo_digest ''00'' (chain_blocks demo_chain) 1 = None"
    using all [rule_format, of 1] by (simp add: demo_chain_def zeros_2)
  moreover have "failed_check demo_digest ''00'' (chain_blocks demo_chain) 2 = None"
    using all [rule_format, of 2] by (simp add: demo_chain_def zeros_2)
  ultimately show ?thesis using f1 f2 r s valid_demo by simp
qed

subsection \<open>C3\<close>




subsection \<open>C4\<close>

text \<open>
  C4. \<^verbatim>\<open>tamper_with_block\<close> raises \<^verbatim>\<open>IndexError\<close> exactly when the index is at most 0 or at
  least the length of the chain, and whenever it raises, the chain after the call is the
  chain before it.
\<close>

theorem tamper_out_of_range:
  "(fst (tamper_with_block self i new_data) = Some IndexError
      \<longleftrightarrow> i \<le> 0 \<or> int (length (chain_blocks self)) \<le> i)
   \<and> (fst (tamper_with_block self i new_data) \<noteq> None
      \<longrightarrow> tamper_with_block self i new_data = (Some IndexError, self))"
  by (simp add: tamper_with_block_def)

theorem tamper_out_of_range_witness:
  "tamper_with_block demo_chain 0 (PStr ''Hacked data'') = (Some IndexError, demo_chain)
   \<and> tamper_with_block demo_chain 3 (PStr ''Hacked data'') = (Some IndexError, demo_chain)
   \<and> tamper_with_block demo_chain (- 1) (PStr ''Hacked data'') = (Some IndexError, demo_chain)
   \<and> fst (tamper_with_block demo_chain 1 (PStr ''Hacked data'')) \<noteq> Some IndexError"
  using tamper_out_of_range [of demo_chain 0 "PStr ''Hacked data''"]
    tamper_out_of_range [of demo_chain 3 "PStr ''Hacked data''"]
    tamper_out_of_range [of demo_chain "- 1" "PStr ''Hacked data''"]
    tamper_out_of_range [of demo_chain 1 "PStr ''Hacked data''"]
  by (simp add: demo_chain_def)

subsection \<open>C5\<close>

text \<open>
  C5. For an index \<open>i\<close> with \<open>0 < i < length\<close>, \<^verbatim>\<open>tamper_with_block\<close> returns normally and
  replaces only the \<^verbatim>\<open>data\<close> attribute of the block at \<open>i\<close>: its index, timestamp,
  previous_hash, nonce and stored hash are as before (the hash is not recomputed), every
  other block is unchanged, and so are the length of the chain and the difficulty.
\<close>

theorem tamper_frame:
  assumes "0 < i" and "i < int (length (chain_blocks self))"
  shows "fst (tamper_with_block self i new_data) = None
    \<and> difficulty (snd (tamper_with_block self i new_data)) = difficulty self
    \<and> length (chain_blocks (snd (tamper_with_block self i new_data))) = length (chain_blocks self)
    \<and> chain_blocks (snd (tamper_with_block self i new_data)) ! nat i
         = (chain_blocks self ! nat i)\<lparr>data := new_data\<rparr>
    \<and> data (chain_blocks (snd (tamper_with_block self i new_data)) ! nat i) = new_data
    \<and> index (chain_blocks (snd (tamper_with_block self i new_data)) ! nat i)
         = index (chain_blocks self ! nat i)
    \<and> timestamp (chain_blocks (snd (tamper_with_block self i new_data)) ! nat i)
         = timestamp (chain_blocks self ! nat i)
    \<and> previous_hash (chain_blocks (snd (tamper_with_block self i new_data)) ! nat i)
         = previous_hash (chain_blocks self ! nat i)
    \<and> nonce (chain_blocks (snd (tamper_with_block self i new_data)) ! nat i)
         = nonce (chain_blocks self ! nat i)
    \<and> hash (chain_blocks (snd (tamper_with_block self i new_data)) ! nat i)
         = hash (chain_blocks self ! nat i)
    \<and> (\<forall>j. j < length (chain_blocks self) \<and> j \<noteq> nat i \<longrightarrow>
          chain_blocks (snd (tamper_with_block self i new_data)) ! j = chain_blocks self ! j)"
  using assms by (simp add: tamper_with_block_def)

theorem tamper_frame_witness:
  "(0::int) < 1 \<and> 1 < int (length (chain_blocks demo_chain))
   \<and> tamper_with_block demo_chain 1 (PStr ''Hacked data'') =
       (None, \<lparr>chain_blocks = [demo_genesis, demo_block1\<lparr>data := PStr ''Hacked data''\<rparr>, demo_block2],
               difficulty = 2\<rparr>)
   \<and> hash (chain_blocks (snd (tamper_with_block demo_chain 1 (PStr ''Hacked data''))) ! 1)
       = ''0018First transaction''"
proof -
  have h: "(0::int) < 1" "1 < int (length (chain_blocks demo_chain))"
    by (simp_all add: demo_chain_def)
  from tamper_frame [OF h, of "PStr ''Hacked data''"] h show ?thesis
    by (simp add: tamper_with_block_def demo_chain_def demo_block1_def)
qed

subsection \<open>C6\<close>

text \<open>
  C6. On a chain with at least one block, \<^verbatim>\<open>add_block\<close> fails to return exactly when no
  nonce from 0 on gives the candidate block a digest with the target prefix. Whenever it
  returns, the chain is the old one with exactly one block appended, whose index is the
  old tail's index plus 1, whose previous_hash is the old tail's stored hash, whose data
  and timestamp are the ones given, which is mined (its stored hash is its recomputed
  digest and has the target prefix), and the returned summary holds that block's index,
  stored hash and nonce and the duration \<open>fin - start\<close>.
\<close>

theorem add_block_appends:
  assumes "chain_blocks self \<noteq> []"
  shows "(add_block hf self d now start fin = None \<longleftrightarrow>
      (\<forall>m. 0 \<le> m \<longrightarrow> \<not> meets hf (zeros (difficulty self))
         (Block_init hf (index (last (chain_blocks self)) + 1) now d (hash (last (chain_blocks self))) 0) m))
   \<and> (\<forall>r. add_block hf self d now start fin = Some r \<longrightarrow>
        (\<exists>b. r = Inr (self\<lparr>chain_blocks := chain_blocks self @ [b]\<rparr>,
                 \<lparr>s_index = index b, s_hash = hash b, s_nonce = nonce b,
                  s_time_taken_sec = fin - start\<rparr>)
           \<and> length (chain_blocks self @ [b]) = length (chain_blocks self) + 1
           \<and> index b = index (last (chain_blocks self)) + 1
           \<and> previous_hash b = hash (last (chain_blocks self))
           \<and> data b = d \<and> timestamp b = now
           \<and> hash b = compute_hash hf b
           \<and> startswith (hash b) (zeros (difficulty self))))"
proof (intro conjI allI impI)
  show "add_block hf self d now start fin = None \<longleftrightarrow>
      (\<forall>m. 0 \<le> m \<longrightarrow> \<not> meets hf (zeros (difficulty self))
         (Block_init hf (index (last (chain_blocks self)) + 1) now d (hash (last (chain_blocks self))) 0) m)"
    by (rule add_block_None_iff [OF assms])
next
  fix r assume "add_block hf self d now start fin = Some r"
  from add_block_Some [OF assms this]
  show "\<exists>b. r = Inr (self\<lparr>chain_blocks := chain_blocks self @ [b]\<rparr>,
                 \<lparr>s_index = index b, s_hash = hash b, s_nonce = nonce b,
                  s_time_taken_sec = fin - start\<rparr>)
           \<and> length (chain_blocks self @ [b]) = length (chain_blocks self) + 1
           \<and> index b = index (last (chain_blocks self)) + 1
           \<and> previous_hash b = hash (last (chain_blocks self))
           \<and> data b = d \<and> timestamp b = now
           \<and> hash b = compute_hash hf b
           \<and> startswith (hash b) (zeros (difficulty self))"
    by auto
qed

theorem add_block_appends_witness:
  "chain_blocks \<lparr>chain_blocks = [demo_genesis, demo_block1], difficulty = 2\<rparr> \<noteq> []
   \<and> add_block demo_digest \<lparr>chain_blocks = [demo_genesis, demo_block1], difficulty = 2\<rparr>
        (PStr ''Second transaction'') 1020 1020 1025
      = Some (Inr (\<lparr>chain_blocks = [demo_genesis, demo_block1, demo_block2], difficulty = 2\<rparr>,
          \<lparr>s_index = 2, s_hash = ''0027Second transaction'', s_nonce = 4, s_time_taken_sec = 5\<rparr>))
   \<and> index demo_block2 = index demo_block1 + 1
   \<and> previous_hash demo_block2 = hash demo_block1
   \<and> hash demo_block2 = compute_hash demo_digest demo_block2
   \<and> startswith (hash demo_block2) ''00''"
proof -
  let ?c = "\<lparr>chain_blocks = [demo_genesis, demo_block1], difficulty = 2\<rparr>"
  have ne: "chain_blocks ?c \<noteq> []" by simp
  have a: "add_block demo_digest ?c (PStr ''Second transaction'') 1020 1020 1025
      = Some (Inr (demo_chain,
          \<lparr>s_index = 2, s_hash = ''0027Second transaction'', s_nonce = 4, s_time_taken_sec = 5\<rparr>))"
    by (rule add2_demo)
  from add_block_appends [OF ne, of demo_digest "PStr ''Second transaction''" 1020 1020 1025] a
  obtain b where b: "demo_chain = ?c\<lparr>chain_blocks := chain_blocks ?c @ [b]\<rparr>"
    "index b = index (last (chain_blocks ?c)) + 1"
    "previous_hash b = hash (last (chain_blocks ?c))"
    "hash b = compute_hash demo_digest b"
    "startswith (hash b) (zeros (difficulty ?c))"
    by auto
  from b(1) have "b = demo_block2" by (simp add: demo_chain_def)
  with b(2-5) a ne show ?thesis by (simp add: demo_chain_def zeros_2)
qed

subsection \<open>C7\<close>

text \<open>
  C7. \<^verbatim>\<open>proof_of_work\<close> fails to return exactly when no nonce from the block's starting nonce
  on meets the target. Whenever it returns, the block's final nonce is the least nonce not
  below the starting one whose digest starts with \<open>difficulty\<close> zero characters; the stored
  hash is the digest recomputed from the block's final attributes and has that prefix; the
  returned hash and nonce are the block's; the other attributes are untouched.
\<close>

theorem proof_of_work_least_nonce:
  "(proof_of_work hf self b start fin = None \<longleftrightarrow>
      (\<forall>m. nonce b \<le> m \<longrightarrow> \<not> meets hf (zeros (difficulty self)) b m))
   \<and> (\<forall>b' h n t. proof_of_work hf self b start fin = Some (b', h, n, t) \<longrightarrow>
        nonce b \<le> nonce b'
        \<and> meets hf (zeros (difficulty self)) b (nonce b')
        \<and> (\<forall>m. nonce b \<le> m \<and> m < nonce b' \<longrightarrow> \<not> meets hf (zeros (difficulty self)) b m)
        \<and> hash b' = compute_hash hf b'
        \<and> startswith (hash b') (zeros (difficulty self))
        \<and> nat (difficulty self) \<le> length (hash b')
        \<and> (\<forall>k < nat (difficulty self). hash b' ! k = CHR ''0'')
        \<and> h = hash b' \<and> n = nonce b' \<and> t = fin - start
        \<and> index b' = index b \<and> timestamp b' = timestamp b \<and> data b' = data b
        \<and> previous_hash b' = previous_hash b)"
proof (intro conjI allI impI)
  show "proof_of_work hf self b start fin = None \<longleftrightarrow>
      (\<forall>m. nonce b \<le> m \<longrightarrow> \<not> meets hf (zeros (difficulty self)) b m)"
    by (rule proof_of_work_None_iff)
next
  fix b' h n t
  assume a: "proof_of_work hf self b start fin = Some (b', h, n, t)"
  note p = proof_of_work_Some [OF a]
  show "nonce b \<le> nonce b'" by (rule p)
  show "meets hf (zeros (difficulty self)) b (nonce b')" by (rule p)
  show "hash b' = compute_hash hf b'" by (rule p)
  show "startswith (hash b') (zeros (difficulty self))" by (rule p)
  show "nat (difficulty self) \<le> length (hash b')"
    using p(5) by (simp add: startswith_zeros_iff)
  show "h = hash b'" by (rule p)
  show "n = nonce b'" by (rule p)
  show "t = fin - start" by (rule p)
  show "index b' = index b" by (rule p)
  show "timestamp b' = timestamp b" by (rule p)
  show "data b' = data b" by (rule p)
  show "previous_hash b' = previous_hash b" by (rule p)
  fix m assume "nonce b \<le> m \<and> m < nonce b'"
  with p(3) show "\<not> meets hf (zeros (difficulty self)) b m" by blast
next
  fix b' h n t k
  assume a: "proof_of_work hf self b start fin = Some (b', h, n, t)" and k: "k < nat (difficulty self)"
  from proof_of_work_Some(5) [OF a] k show "hash b' ! k = CHR ''0''"
    by (simp add: startswith_zeros_iff)
qed

theorem proof_of_work_least_nonce_witness:
  "proof_of_work demo_digest \<lparr>chain_blocks = [], difficulty = 2\<rparr>
      (Block_init demo_digest 0 1000 (PStr ''Genesis Block'') ''0'' 4) 7 9
     = Some (demo_genesis\<lparr>nonce := 8, hash := ''009Genesis Block''\<rparr>, ''009Genesis Block'', 8, 2)
   \<and> meets demo_digest ''00'' (Block_init demo_digest 0 1000 (PStr ''Genesis Block'') ''0'' 4) 3
   \<and> meets demo_digest ''00'' (Block_init demo_digest 0 1000 (PStr ''Genesis Block'') ''0'' 4) 8
   \<and> \<not> meets demo_digest ''00'' (Block_init demo_digest 0 1000 (PStr ''Genesis Block'') ''0'' 4) 4
   \<and> \<not> meets demo_digest ''00'' (Block_init demo_digest 0 1000 (PStr ''Genesis Block'') ''0'' 4) 7
   \<and> compute_hash demo_digest (demo_genesis\<lparr>nonce := 8, hash := ''009Genesis Block''\<rparr>)
       = ''009Genesis Block''
   \<and> proof_of_work (\<lambda>i t d p n. ''f'') \<lparr>chain_blocks = [], difficulty = 1\<rparr> demo_genesis 7 9 = None"
proof -
  have "\<forall>m. nonce demo_genesis \<le> m \<longrightarrow>
      \<not> meets (\<lambda>i t d p n. ''f'') (zeros (difficulty \<lparr>chain_blocks = [], difficulty = 1\<rparr>)) demo_genesis m"
    by (simp add: meets_def compute_hash_def startswith_def zeros_def)
  with proof_of_work_least_nonce [of "\<lambda>i t d p n. ''f''" "\<lparr>chain_blocks = [], difficulty = 1\<rparr>"
      demo_genesis 7 9]
  have never: "proof_of_work (\<lambda>i t d p n. ''f'') \<lparr>chain_blocks = [], difficulty = 1\<rparr> demo_genesis 7 9 = None"
    by blast
  let ?b = "Block_init demo_digest 0 1000 (PStr ''Genesis Block'') ''0'' 4"
  let ?b' = "demo_genesis\<lparr>nonce := 8, hash := ''009Genesis Block''\<rparr>"
  have "mine_loop demo_digest ''00'' ?b = Some ?b'"
    by (simp add: mine_loop.simps Block_init_def demo_genesis_def digest_eval)
  then have pw: "proof_of_work demo_digest \<lparr>chain_blocks = [], difficulty = 2\<rparr> ?b 7 9
      = Some (?b', ''009Genesis Block'', 8, 2)"
    by (simp add: proof_of_work_def zeros_2)
  have n: "nonce ?b = 4" "nonce ?b' = 8" "index ?b = 0"
    by (simp_all add: Block_init_def)
  from proof_of_work_least_nonce [of demo_digest "\<lparr>chain_blocks = [], difficulty = 2\<rparr>" ?b 7 9] pw
  have "meets demo_digest ''00'' ?b 8 \<and> (\<forall>m. 4 \<le> m \<and> m < 8 \<longrightarrow> \<not> meets demo_digest ''00'' ?b m)
      \<and> hash ?b' = compute_hash demo_digest ?b'"
    by (simp add: zeros_2 n)
  moreover have "meets demo_digest ''00'' ?b 3"
    by (simp add: demo_meets n)
  ultimately show ?thesis using pw never by simp
qed

subsection \<open>C8\<close>




subsection \<open>C10\<close>

text \<open>
  C10. \<^verbatim>\<open>is_chain_valid\<close> reads nothing of the genesis block but its stored hash: two
  chains with the same difficulty and the same blocks after the first, whose first blocks
  have the same stored hash, get the same result. In particular a chain of a single block
  is valid whatever that block is.
\<close>

theorem genesis_not_examined:
  "(chain_blocks c = g # rest \<and> chain_blocks c' = g' # rest \<and> hash g' = hash g
      \<and> difficulty c' = difficulty c
      \<longrightarrow> is_chain_valid hf c' = is_chain_valid hf c)
   \<and> is_chain_valid hf \<lparr>chain_blocks = [g], difficulty = d\<rparr> = (True, ''Chain is valid.'')"
  by (auto simp: is_chain_valid_def valid_loop_single intro: valid_loop_genesis)

theorem genesis_not_examined_witness:
  "compute_hash demo_digest (demo_genesis\<lparr>data := PStr ''Forged'', nonce := 0\<rparr>)
      \<noteq> hash (demo_genesis\<lparr>data := PStr ''Forged'', nonce := 0\<rparr>)
   \<and> \<not> startswith (compute_hash demo_digest (demo_genesis\<lparr>data := PStr ''Forged'', nonce := 0\<rparr>)) ''00''
   \<and> is_chain_valid demo_digest
        \<lparr>chain_blocks = [demo_genesis\<lparr>data := PStr ''Forged'', nonce := 0\<rparr>, demo_block1, demo_block2],
         difficulty = 2\<rparr> = (True, ''Chain is valid.'')
   \<and> is_chain_valid demo_digest
        \<lparr>chain_blocks = [demo_genesis\<lparr>hash := ''e''\<rparr>], difficulty = 2\<rparr> = (True, ''Chain is valid.'')"
  using genesis_not_examined [where c = demo_chain and g = demo_genesis
      and rest = "[demo_block1, demo_block2]"
      and c' = "\<lparr>chain_blocks = [demo_genesis\<lparr>data := PStr ''Forged'', nonce := 0\<rparr>, demo_block1, demo_block2],
         difficulty = 2\<rparr>" and g' = "demo_genesis\<lparr>data := PStr ''Forged'', nonce := 0\<rparr>"
      and hf = demo_digest and d = 2]
    genesis_not_examined [where g = "demo_genesis\<lparr>hash := ''e''\<rparr>" and hf = demo_digest and d = 2]
     valid_demo
  by (simp add: demo_chain_def demo_genesis_def digest_eval)

end
